theory Spec2Isabelle
  imports Main "HOL-Library.Word"
begin

unbundle bit_operations_syntax

section \<open>Data model\<close>

text \<open>
  The allocator of \<^verbatim>\<open>03-select-search-mode-collector/main.cpp\<close> (the earlier exercises
  hold the same \<^verbatim>\<open>Block\<close>, \<^verbatim>\<open>align\<close>, \<^verbatim>\<open>allocSize\<close>, \<^verbatim>\<open>requestFromOS\<close>, \<^verbatim>\<open>getHeader\<close> and
  \<^verbatim>\<open>free\<close>) on an LP64 target: \<^verbatim>\<open>size_t\<close>, \<^verbatim>\<open>intptr_t\<close> and pointers are 64-bit words,
  arithmetic on them wraps. The null pointer is the address 0.
\<close>

type_synonym addr = "64 word"
type_synonym size_t = "64 word"

abbreviation (input) nullptr :: addr where
  "nullptr \<equiv> 0"

datatype SearchMode = FirstFit | NextFit | BestFit

text \<open>
  The object header of \<^verbatim>\<open>struct Block\<close>, with the sizes its comments give: \<^verbatim>\<open>size\<close>
  (8 bytes), \<^verbatim>\<open>used\<close> (1 byte and 7 of padding) and \<^verbatim>\<open>next\<close> (8 bytes). The payload
  \<^verbatim>\<open>data\<close> (one word of 8 bytes inside the struct) follows at offset 24, and
  \<^verbatim>\<open>sizeof(Block)\<close> is 32, as the second exercise asserts. The contents of the payload
  play no part in the allocator and are not modelled.
\<close>

record Block =
  size_blk :: size_t
  used_blk :: bool
  next_blk :: addr

definition sizeof_word_t :: size_t where
  "sizeof_word_t = 8"

definition sizeof_Block :: size_t where
  "sizeof_Block = 32"

definition sizeof_data :: size_t where
  "sizeof_data = 8"

definition offsetof_data :: addr where
  "offsetof_data = 24"

text \<open>
  The globals \<^verbatim>\<open>heapStart\<close>, \<^verbatim>\<open>top\<close>, \<^verbatim>\<open>searchStart\<close> and \<^verbatim>\<open>searchMode\<close>, together with
  the memory they point into and the program break the operating system keeps.
  \<open>memory\<close> holds the block headers by address; \<open>break_min\<close> and \<open>break_max\<close> are the
  bounds within which the operating system lets the break move.
\<close>

record allocator =
  memory :: "addr \<rightharpoonup> Block"
  program_break :: addr
  break_min :: addr
  break_max :: addr
  heapStart :: addr
  top_ptr :: addr
  searchStart :: addr
  searchMode :: SearchMode

text \<open>
  Dereferencing a pointer that is null, or that does not point at a block header, is
  undefined behaviour in the source; the model makes it a fault.
\<close>

datatype fault = NullDereference | InvalidAccess

definition load :: "allocator \<Rightarrow> addr \<Rightarrow> fault + Block" where
  "load s p =
     (if p = nullptr then Inl NullDereference
      else case memory s p of None \<Rightarrow> Inl InvalidAccess | Some b \<Rightarrow> Inr b)"

definition store :: "addr \<Rightarrow> (Block \<Rightarrow> Block) \<Rightarrow> allocator \<Rightarrow> fault + allocator" where
  "store p f s =
     (case load s p of
        Inl e \<Rightarrow> Inl e
      | Inr b \<Rightarrow> Inr (s\<lparr>memory := (memory s)(p \<mapsto> f b)\<rparr>))"

section \<open>The operating system: \<^verbatim>\<open>sbrk\<close> and \<^verbatim>\<open>brk\<close>\<close>

text \<open>
  \<^verbatim>\<open>sbrk(increment)\<close> moves the break by a signed increment and returns the old break,
  or \<^verbatim>\<open>(void*)-1\<close> when the operating system denies the request; \<^verbatim>\<open>sbrk(0)\<close> only reads
  the break. Moving the break writes no byte. A span handed out for the first time
  reads as zero: when it can hold a header, it is seen as a zeroed header at its
  start. Where a header was written before, its bytes are still there: they are kept
  when the break moves back (the page stays mapped) and when it moves forward again.
\<close>

definition zero_Block :: Block where
  "zero_Block = \<lparr>size_blk = 0, used_blk = False, next_blk = nullptr\<rparr>"

definition move_break :: "int \<Rightarrow> allocator \<Rightarrow> allocator" where
  "move_break new s =
     s\<lparr>program_break := word_of_int new,
       memory :=
         (if uint (program_break s) + 24 \<le> new \<and> memory s (program_break s) = None
          then (memory s)(program_break s \<mapsto> zero_Block)
          else memory s)\<rparr>"

definition sbrk :: "64 word \<Rightarrow> allocator \<Rightarrow> addr \<times> allocator" where
  "sbrk increment s =
     (let new = uint (program_break s) + sint increment in
      if increment = 0 then (program_break s, s)
      else if new < uint (break_min s) \<or> uint (break_max s) < new then (- 1, s)
      else (program_break s, move_break new s))"

definition brk_call :: "addr \<Rightarrow> allocator \<Rightarrow> allocator" where
  "brk_call a s =
     (if a < break_min s \<or> break_max s < a then s else move_break (uint a) s)"

section \<open>Lifecycle\<close>

text \<open>
  The state at program start, from the static initialisers: no heap, no cursor, first
  fit. The break starts at \<open>base\<close> and may grow up to \<open>limit\<close>.
\<close>

definition initial_state :: "addr \<Rightarrow> addr \<Rightarrow> allocator" where
  "initial_state base limit =
     \<lparr>memory = Map.empty, program_break = base, break_min = base, break_max = limit,
      heapStart = nullptr, top_ptr = nullptr, searchStart = nullptr, searchMode = FirstFit\<rparr>"

definition resetHeap :: "allocator \<Rightarrow> allocator" where
  "resetHeap s =
     (if heapStart s = nullptr then s
      else (brk_call (heapStart s) s)
             \<lparr>heapStart := nullptr, top_ptr := nullptr, searchStart := nullptr\<rparr>)"

definition init :: "SearchMode \<Rightarrow> allocator \<Rightarrow> allocator" where
  "init mode s = resetHeap (s\<lparr>searchMode := mode\<rparr>)"

section \<open>Alignment and header arithmetic\<close>

definition align :: "size_t \<Rightarrow> size_t" where
  "align n = (n + sizeof_word_t - 1) AND NOT (sizeof_word_t - 1)"

definition allocSize :: "size_t \<Rightarrow> size_t" where
  "allocSize sz = sz + sizeof_Block - sizeof_data"

definition requestFromOS :: "size_t \<Rightarrow> allocator \<Rightarrow> addr \<times> allocator" where
  "requestFromOS sz s =
     (let (block, s1) = sbrk 0 s;
          deltaIncrement = allocSize sz;
          (r, s2) = sbrk deltaIncrement s1
      in if r = - 1 then (nullptr, s2) else (block, s2))"

text \<open>\<^verbatim>\<open>block->data\<close>: the address of the payload of the block at \<open>block\<close>.\<close>

definition data_of :: "addr \<Rightarrow> addr" where
  "data_of block = block + offsetof_data"

definition getHeader :: "addr \<Rightarrow> addr" where
  "getHeader data = data + sizeof_data - sizeof_Block"

section \<open>Searching the chain\<close>

text \<open>
  The three searches walk along the \<^verbatim>\<open>next\<close> pointers. A search that does not come
  to an end has the value \<open>None\<close>; one that ends gives \<open>Some\<close> of a fault or of the
  block found (\<open>nullptr\<close> when nothing fits).
\<close>

partial_function (option) firstFit_loop ::
  "allocator \<Rightarrow> size_t \<Rightarrow> addr \<Rightarrow> (fault + addr) option" where
  "firstFit_loop s alignedSize block =
     (if block = nullptr then Some (Inr nullptr)
      else case load s block of
        Inl e \<Rightarrow> Some (Inl e)
      | Inr b \<Rightarrow>
          if used_blk b \<or> size_blk b < alignedSize
          then firstFit_loop s alignedSize (next_blk b)
          else Some (Inr block))"

declare firstFit_loop.simps [code]

definition firstFit :: "size_t \<Rightarrow> allocator \<Rightarrow> (fault + addr) option" where
  "firstFit alignedSize s = firstFit_loop s alignedSize (heapStart s)"

partial_function (option) nextFit_loop ::
  "allocator \<Rightarrow> size_t \<Rightarrow> addr \<Rightarrow> (fault + addr \<times> allocator) option" where
  "nextFit_loop s alignedSize block =
     (case load s block of
        Inl e \<Rightarrow> Some (Inl e)
      | Inr b \<Rightarrow>
          if used_blk b \<or> size_blk b < alignedSize
          then (if next_blk b = nullptr
                then (if searchStart s = nullptr then Some (Inr (nullptr, s))
                      else if heapStart s = searchStart s then Some (Inr (nullptr, s))
                      else nextFit_loop s alignedSize (heapStart s))
                else if next_blk b = searchStart s then Some (Inr (nullptr, s))
                else nextFit_loop s alignedSize (next_blk b))
          else Some (Inr (block, s\<lparr>searchStart := block\<rparr>)))"

declare nextFit_loop.simps [code]

definition nextFit :: "size_t \<Rightarrow> allocator \<Rightarrow> (fault + addr \<times> allocator) option" where
  "nextFit alignedSize s =
     (let block = (if searchStart s = nullptr then heapStart s else searchStart s) in
      if block = nullptr then Some (Inr (nullptr, s))
      else nextFit_loop s alignedSize block)"

partial_function (option) bestFit_loop ::
  "allocator \<Rightarrow> size_t \<Rightarrow> addr \<Rightarrow> addr \<Rightarrow> (fault + addr) option" where
  "bestFit_loop s alignedSize block bestFitBlock =
     (if block = nullptr then Some (Inr bestFitBlock)
      else case load s block of
        Inl e \<Rightarrow> Some (Inl e)
      | Inr b \<Rightarrow>
          if used_blk b \<or> size_blk b < alignedSize
          then bestFit_loop s alignedSize (next_blk b) bestFitBlock
          else if size_blk b = alignedSize then Some (Inr block)
          else if bestFitBlock = nullptr
          then bestFit_loop s alignedSize (next_blk b) block
          else (case load s bestFitBlock of
                  Inl e \<Rightarrow> Some (Inl e)
                | Inr bb \<Rightarrow>
                    if size_blk b < size_blk bb
                    then bestFit_loop s alignedSize (next_blk b) block
                    else bestFit_loop s alignedSize block bestFitBlock))"

declare bestFit_loop.simps [code]

definition bestFit :: "size_t \<Rightarrow> allocator \<Rightarrow> (fault + addr) option" where
  "bestFit alignedSize s = bestFit_loop s alignedSize (heapStart s) nullptr"

definition findBlock :: "size_t \<Rightarrow> allocator \<Rightarrow> (fault + addr \<times> allocator) option" where
  "findBlock alignedSize s =
     (case searchMode s of
        FirstFit \<Rightarrow> map_option (map_sum id (\<lambda>block. (block, s))) (firstFit alignedSize s)
      | NextFit \<Rightarrow> nextFit alignedSize s
      | BestFit \<Rightarrow> map_option (map_sum id (\<lambda>block. (block, s))) (bestFit alignedSize s))"

section \<open>Splitting (not called by \<^verbatim>\<open>alloc\<close>)\<close>

definition split :: "addr \<Rightarrow> size_t \<Rightarrow> allocator \<Rightarrow> fault + addr" where
  "split block sz s =
     (case load s block of
        Inl e \<Rightarrow> Inl e
      | Inr b \<Rightarrow> (let newBlockSize = size_blk b - allocSize sz in Inr nullptr))"

definition canSplit :: "addr \<Rightarrow> size_t \<Rightarrow> allocator \<Rightarrow> fault + bool" where
  "canSplit block sz s =
     (case load s block of Inl e \<Rightarrow> Inl e | Inr b \<Rightarrow> Inr (sz < size_blk b))"

definition listAllocate :: "addr \<Rightarrow> size_t \<Rightarrow> allocator \<Rightarrow> fault + addr \<times> allocator" where
  "listAllocate block sz s =
     (case canSplit block sz s of
        Inl e \<Rightarrow> Inl e
      | Inr c \<Rightarrow>
          (case (if c then split block sz s else Inr block) of
             Inl e \<Rightarrow> Inl e
           | Inr block' \<Rightarrow>
               (case store block' (\<lambda>b. b\<lparr>used_blk := True\<rparr>) s of
                  Inl e \<Rightarrow> Inl e
                | Inr s1 \<Rightarrow>
                    (case store block' (\<lambda>b. b\<lparr>size_blk := sz\<rparr>) s1 of
                       Inl e \<Rightarrow> Inl e
                     | Inr s2 \<Rightarrow> Inr (block', s2)))))"

section \<open>\<^verbatim>\<open>alloc\<close> and \<^verbatim>\<open>free\<close>\<close>

text \<open>
  \<^verbatim>\<open>alloc\<close> returns the payload address and the new state. The block found by the
  search is marked used as it is; otherwise the block comes from \<^verbatim>\<open>requestFromOS\<close>,
  whose result is written through without a check.
\<close>

definition alloc :: "size_t \<Rightarrow> allocator \<Rightarrow> (fault + addr \<times> allocator) option" where
  "alloc sz s =
     (let alignedSize = align sz in
      case findBlock alignedSize s of
        None \<Rightarrow> None
      | Some (Inl e) \<Rightarrow> Some (Inl e)
      | Some (Inr (found, s1)) \<Rightarrow>
          if found \<noteq> nullptr
          then (case store found (\<lambda>b. b\<lparr>used_blk := True\<rparr>) s1 of
                  Inl e \<Rightarrow> Some (Inl e)
                | Inr s2 \<Rightarrow> Some (Inr (data_of found, s2)))
          else
            (let (block, s2) = requestFromOS alignedSize s1 in
             case store block (\<lambda>b. b\<lparr>size_blk := alignedSize\<rparr>) s2 of
               Inl e \<Rightarrow> Some (Inl e)
             | Inr s3 \<Rightarrow>
                 (case store block (\<lambda>b. b\<lparr>used_blk := True\<rparr>) s3 of
                    Inl e \<Rightarrow> Some (Inl e)
                  | Inr s4 \<Rightarrow>
                      (let s5 = (if heapStart s4 = nullptr then s4\<lparr>heapStart := block\<rparr> else s4) in
                       case (if top_ptr s5 \<noteq> nullptr
                             then store (top_ptr s5) (\<lambda>b. b\<lparr>next_blk := block\<rparr>) s5
                             else Inr s5) of
                         Inl e \<Rightarrow> Some (Inl e)
                       | Inr s6 \<Rightarrow> Some (Inr (data_of block, s6\<lparr>top_ptr := block\<rparr>))))))"

definition free :: "addr \<Rightarrow> allocator \<Rightarrow> fault + allocator" where
  "free data s = (let block = getHeader data in store block (\<lambda>b. b\<lparr>used_blk := False\<rparr>) s)"

section \<open>Client programs\<close>

text \<open>
  A client such as \<^verbatim>\<open>main\<close> is a sequence of calls; it stops at the first fault and
  has no result when a call does not return.
\<close>

datatype call = Alloc size_t | Free addr

fun run :: "call list \<Rightarrow> allocator \<Rightarrow> (fault + allocator) option" where
  "run [] s = Some (Inr s)"
| "run (Alloc n # cs) s =
     (case alloc n s of
        None \<Rightarrow> None
      | Some (Inl e) \<Rightarrow> Some (Inl e)
      | Some (Inr (p, s')) \<Rightarrow> run cs s')"
| "run (Free p # cs) s =
     (case free p s of Inl e \<Rightarrow> Some (Inl e) | Inr s' \<Rightarrow> run cs s')"

section \<open>The chain as a list\<close>

text \<open>
  \<open>chain m p xs\<close>: following \<^verbatim>\<open>next\<close> from \<open>p\<close> visits exactly the blocks \<open>xs\<close>, in this
  order, and then reaches the null pointer. A block fits a request when it is free
  and not smaller than the aligned size.
\<close>

fun chain :: "(addr \<rightharpoonup> Block) \<Rightarrow> addr \<Rightarrow> addr list \<Rightarrow> bool" where
  "chain m p [] = (p = nullptr)"
| "chain m p (x # xs) =
     (p = x \<and> x \<noteq> nullptr \<and>
      (case m x of None \<Rightarrow> False | Some b \<Rightarrow> chain m (next_blk b) xs))"

definition fits :: "(addr \<rightharpoonup> Block) \<Rightarrow> size_t \<Rightarrow> addr \<Rightarrow> bool" where
  "fits m alignedSize p =
     (case m p of None \<Rightarrow> False | Some b \<Rightarrow> \<not> used_blk b \<and> \<not> size_blk b < alignedSize)"

text \<open>
  Next fit as the specification words it: a linear scan that starts at the cursor (at
  the head when the cursor is unset), wraps around once and stops where it started;
  the first block that fits is returned and becomes the cursor, and with no such
  block the result is the null pointer and the cursor stays.
\<close>

definition scan_order :: "addr list \<Rightarrow> addr \<Rightarrow> addr list" where
  "scan_order xs cursor =
     (if cursor = nullptr then xs
      else dropWhile (\<lambda>x. x \<noteq> cursor) xs @ takeWhile (\<lambda>x. x \<noteq> cursor) xs)"

definition found_result :: "allocator \<Rightarrow> addr option \<Rightarrow> addr \<times> allocator" where
  "found_result s r =
     (case r of None \<Rightarrow> (nullptr, s) | Some block \<Rightarrow> (block, s\<lparr>searchStart := block\<rparr>))"

definition nextFit_spec :: "addr list \<Rightarrow> size_t \<Rightarrow> allocator \<Rightarrow> addr \<times> allocator" where
  "nextFit_spec xs alignedSize s =
     found_result s (find (fits (memory s) alignedSize) (scan_order xs (searchStart s)))"

text \<open>
  The states a client brings about from program start by calls of \<^verbatim>\<open>init\<close> on a heap
  not yet in use, and by calls of \<^verbatim>\<open>alloc\<close> and \<^verbatim>\<open>free\<close> that return. \<open>wf_state s xs\<close> is
  what holds of all of them: the chain from the heap start is the list \<open>xs\<close>, the
  cursor is unset or on one of its blocks, \<^verbatim>\<open>top\<close> is its last block, and every header
  lies below the break. (\<^verbatim>\<open>init\<close> on a heap in use rolls the break back over the old
  headers; a block allocated afterwards keeps the next link that its memory held, see
  \<open>reinit_keeps_old_link\<close> below, so those states are left out.)
\<close>

definition wf_state :: "allocator \<Rightarrow> addr list \<Rightarrow> bool" where
  "wf_state s xs \<longleftrightarrow>
     chain (memory s) (heapStart s) xs
     \<and> (searchStart s = nullptr \<or> searchStart s \<in> set xs)
     \<and> top_ptr s = (if xs = [] then nullptr else last xs)
     \<and> (\<forall>p \<in> dom (memory s). uint p + 24 \<le> uint (program_break s))
     \<and> program_break s \<noteq> nullptr"

inductive reachable :: "allocator \<Rightarrow> bool" where
  start: "base \<noteq> nullptr \<Longrightarrow> reachable (initial_state base limit)"
| after_init: "reachable s \<Longrightarrow> heapStart s = nullptr \<Longrightarrow> reachable (init mode s)"
| after_alloc: "reachable s \<Longrightarrow> alloc sz s = Some (Inr (p, s')) \<Longrightarrow> reachable s'"
| after_free: "reachable s \<Longrightarrow> free data s = Inr s' \<Longrightarrow> reachable s'"

section \<open>Test states\<close>

text \<open>
  States reached by short runs from \<open>initial_state 4096 8192\<close>; each is shown below to
  be the result of such a run.
\<close>

definition one_used8 :: allocator where
  "one_used8 =
     \<lparr>memory = [4096 \<mapsto> \<lparr>size_blk = 8, used_blk = True, next_blk = nullptr\<rparr>],
      program_break = 4128, break_min = 4096, break_max = 8192,
      heapStart = 4096, top_ptr = 4096, searchStart = nullptr, searchMode = FirstFit\<rparr>"

definition one_free8 :: allocator where
  "one_free8 =
     \<lparr>memory = [4096 \<mapsto> \<lparr>size_blk = 8, used_blk = False, next_blk = nullptr\<rparr>],
      program_break = 4128, break_min = 4096, break_max = 8192,
      heapStart = 4096, top_ptr = 4096, searchStart = nullptr, searchMode = FirstFit\<rparr>"


definition one_free64 :: allocator where
  "one_free64 =
     \<lparr>memory = [4096 \<mapsto> \<lparr>size_blk = 64, used_blk = False, next_blk = nullptr\<rparr>],
      program_break = 4184, break_min = 4096, break_max = 8192,
      heapStart = 4096, top_ptr = 4096, searchStart = nullptr, searchMode = FirstFit\<rparr>"

definition one_used64 :: allocator where
  "one_used64 =
     \<lparr>memory = [4096 \<mapsto> \<lparr>size_blk = 64, used_blk = True, next_blk = nullptr\<rparr>],
      program_break = 4184, break_min = 4096, break_max = 8192,
      heapStart = 4096, top_ptr = 4096, searchStart = nullptr, searchMode = FirstFit\<rparr>"

definition two_b_free :: allocator where
  "two_b_free =
     \<lparr>memory = [4096 \<mapsto> \<lparr>size_blk = 16, used_blk = True, next_blk = 4136\<rparr>,
                4136 \<mapsto> \<lparr>size_blk = 32, used_blk = False, next_blk = nullptr\<rparr>],
      program_break = 4192, break_min = 4096, break_max = 8192,
      heapStart = 4096, top_ptr = 4136, searchStart = nullptr, searchMode = FirstFit\<rparr>"

definition two_free :: allocator where
  "two_free =
     \<lparr>memory = [4096 \<mapsto> \<lparr>size_blk = 16, used_blk = False, next_blk = 4136\<rparr>,
                4136 \<mapsto> \<lparr>size_blk = 32, used_blk = False, next_blk = nullptr\<rparr>],
      program_break = 4192, break_min = 4096, break_max = 8192,
      heapStart = 4096, top_ptr = 4136, searchStart = nullptr, searchMode = FirstFit\<rparr>"

definition three_grown :: allocator where
  "three_grown =
     \<lparr>memory = [4096 \<mapsto> \<lparr>size_blk = 16, used_blk = False, next_blk = 4136\<rparr>,
                4136 \<mapsto> \<lparr>size_blk = 32, used_blk = False, next_blk = 4192\<rparr>,
                4192 \<mapsto> \<lparr>size_blk = 72, used_blk = True, next_blk = nullptr\<rparr>],
      program_break = 4288, break_min = 4096, break_max = 8192,
      heapStart = 4096, top_ptr = 4192, searchStart = nullptr, searchMode = FirstFit\<rparr>"

definition best_two_free :: allocator where
  "best_two_free =
     \<lparr>memory = [4096 \<mapsto> \<lparr>size_blk = 32, used_blk = False, next_blk = 4152\<rparr>,
                4152 \<mapsto> \<lparr>size_blk = 64, used_blk = False, next_blk = nullptr\<rparr>],
      program_break = 4240, break_min = 4096, break_max = 8192,
      heapStart = 4096, top_ptr = 4152, searchStart = nullptr, searchMode = BestFit\<rparr>"

text \<open>
  The best-fit test of \<^verbatim>\<open>main\<close>, before and after its last \<^verbatim>\<open>alloc(16)\<close>:
  blocks of 8 (used), 64 (free), 8 (used) and 16 (used) bytes, and what the code makes of
  them.
\<close>

definition main_best_fit_before :: allocator where
  "main_best_fit_before =
     \<lparr>memory = [4096 \<mapsto> \<lparr>size_blk = 8, used_blk = True, next_blk = 4128\<rparr>,
                4128 \<mapsto> \<lparr>size_blk = 64, used_blk = False, next_blk = 4216\<rparr>,
                4216 \<mapsto> \<lparr>size_blk = 8, used_blk = True, next_blk = 4248\<rparr>,
                4248 \<mapsto> \<lparr>size_blk = 16, used_blk = True, next_blk = nullptr\<rparr>],
      program_break = 4288, break_min = 4096, break_max = 8192,
      heapStart = 4096, top_ptr = 4248, searchStart = nullptr, searchMode = BestFit\<rparr>"

definition main_best_fit_after :: allocator where
  "main_best_fit_after =
     \<lparr>memory = [4096 \<mapsto> \<lparr>size_blk = 8, used_blk = True, next_blk = 4128\<rparr>,
                4128 \<mapsto> \<lparr>size_blk = 64, used_blk = True, next_blk = 4216\<rparr>,
                4216 \<mapsto> \<lparr>size_blk = 8, used_blk = True, next_blk = 4248\<rparr>,
                4248 \<mapsto> \<lparr>size_blk = 16, used_blk = True, next_blk = nullptr\<rparr>],
      program_break = 4288, break_min = 4096, break_max = 8192,
      heapStart = 4096, top_ptr = 4248, searchStart = nullptr, searchMode = BestFit\<rparr>"

text \<open>
  The next-fit test of \<^verbatim>\<open>main\<close> after its first reuse (the cursor is on \<^verbatim>\<open>o1\<close>, the
  block at 4192), and a later state with the cursor on the last block and the only free
  block at the head.
\<close>

definition next_fit_progress :: allocator where
  "next_fit_progress =
     \<lparr>memory = [4096 \<mapsto> \<lparr>size_blk = 8, used_blk = True, next_blk = 4128\<rparr>,
                4128 \<mapsto> \<lparr>size_blk = 8, used_blk = True, next_blk = 4160\<rparr>,
                4160 \<mapsto> \<lparr>size_blk = 8, used_blk = True, next_blk = 4192\<rparr>,
                4192 \<mapsto> \<lparr>size_blk = 16, used_blk = True, next_blk = 4232\<rparr>,
                4232 \<mapsto> \<lparr>size_blk = 16, used_blk = False, next_blk = nullptr\<rparr>],
      program_break = 4272, break_min = 4096, break_max = 8192,
      heapStart = 4096, top_ptr = 4232, searchStart = 4192, searchMode = NextFit\<rparr>"

definition next_fit_wrap :: allocator where
  "next_fit_wrap =
     \<lparr>memory = [4096 \<mapsto> \<lparr>size_blk = 8, used_blk = False, next_blk = 4128\<rparr>,
                4128 \<mapsto> \<lparr>size_blk = 8, used_blk = True, next_blk = 4160\<rparr>,
                4160 \<mapsto> \<lparr>size_blk = 8, used_blk = True, next_blk = 4192\<rparr>,
                4192 \<mapsto> \<lparr>size_blk = 16, used_blk = True, next_blk = 4232\<rparr>,
                4232 \<mapsto> \<lparr>size_blk = 16, used_blk = True, next_blk = nullptr\<rparr>],
      program_break = 4272, break_min = 4096, break_max = 8192,
      heapStart = 4096, top_ptr = 4232, searchStart = 4232, searchMode = NextFit\<rparr>"

section \<open>Basic facts\<close>

lemmas layout_defs = sizeof_word_t_def sizeof_Block_def sizeof_data_def offsetof_data_def
lemmas os_defs = requestFromOS_def sbrk_def move_break_def zero_Block_def
lemmas access_defs = store_def load_def
lemmas search_defs = findBlock_def firstFit_def nextFit_def bestFit_def
lemmas run_defs = alloc_def search_defs os_defs access_defs layout_defs
  align_def allocSize_def data_of_def getHeader_def free_def init_def resetHeap_def
  initial_state_def

lemma store_Inr:
  "store p f s = Inr s' \<longleftrightarrow>
     p \<noteq> nullptr \<and> (\<exists>b. memory s p = Some b \<and> s' = s\<lparr>memory := (memory s)(p \<mapsto> f b)\<rparr>)"
  by (auto simp: store_def load_def split: option.splits)

subsection \<open>The test states are reached\<close>

lemma one_used8_reached:
  "run [Alloc 8] (init FirstFit (initial_state 4096 8192)) = Some (Inr one_used8)"
  by (simp add: run_defs firstFit_loop.simps one_used8_def)

lemma one_free8_reached:
  "run [Alloc 8, Free 4120] (init FirstFit (initial_state 4096 8192)) = Some (Inr one_free8)"
  by (simp add: run_defs firstFit_loop.simps one_free8_def)

lemma one_free64_reached:
  "run [Alloc 64, Free 4120] (init FirstFit (initial_state 4096 8192)) = Some (Inr one_free64)"
  by (simp add: run_defs firstFit_loop.simps one_free64_def)

lemma two_b_free_reached:
  "run [Alloc 16, Alloc 32, Free 4160] (init FirstFit (initial_state 4096 8192))
     = Some (Inr two_b_free)"
  by (auto simp add: run_defs firstFit_loop.simps two_b_free_def fun_eq_iff)

lemma best_two_free_reached:
  "run [Alloc 32, Alloc 64, Free 4120, Free 4176] (init BestFit (initial_state 4096 8192))
     = Some (Inr best_two_free)"
  by (auto simp add: run_defs bestFit_loop.simps best_two_free_def fun_eq_iff)

lemma main_best_fit_before_reached:
  "run [Alloc 8, Alloc 64, Alloc 8, Alloc 16, Free 4272, Free 4152, Alloc 16]
     (init BestFit (initial_state 4096 8192)) = Some (Inr main_best_fit_before)"
  by (auto simp add: run_defs bestFit_loop.simps main_best_fit_before_def fun_eq_iff)

lemma next_fit_progress_reached:
  "run [Alloc 8, Alloc 8, Alloc 8, Alloc 16, Alloc 16, Free 4216, Free 4256, Alloc 16]
     (init NextFit (initial_state 4096 8192)) = Some (Inr next_fit_progress)"
  by (auto simp add: run_defs nextFit_loop.simps next_fit_progress_def fun_eq_iff)

lemma next_fit_wrap_reached:
  "run [Alloc 16, Free 4120] next_fit_progress = Some (Inr next_fit_wrap)"
  by (auto simp add: run_defs nextFit_loop.simps next_fit_progress_def next_fit_wrap_def
      fun_eq_iff)

subsection \<open>Chains\<close>

lemma chain_same_links:
  assumes "m q = Some b" and "next_blk b' = next_blk b"
  shows "chain (m(q \<mapsto> b')) p xs = chain m p xs"
  using assms by (induction xs arbitrary: p) (auto split: option.splits)

lemma chain_functional:
  "chain m p xs \<Longrightarrow> chain m p ys \<Longrightarrow> xs = ys"
proof (induction xs arbitrary: p ys)
  case Nil
  then show ?case by (cases ys) auto
next
  case (Cons x xs)
  then show ?case by (cases ys) (auto split: option.splits)
qed

lemma chain_suffix:
  "chain m p (xs @ y # ys) \<Longrightarrow> chain m y (y # ys)"
proof (induction xs arbitrary: p)
  case Nil
  then show ?case by simp
next
  case (Cons x xs)
  from Cons.prems obtain b :: Block where "chain m (next_blk b) (xs @ y # ys)"
    by (auto split: option.splits)
  then show ?case by (rule Cons.IH)
qed

lemma chain_head_notin_tail:
  assumes "chain m p (x # xs)"
  shows "x \<notin> set xs"
proof
  assume "x \<in> set xs"
  then obtain as cs where xs: "xs = as @ x # cs"
    by (auto simp: in_set_conv_decomp)
  have "chain m x ((x # as) @ x # cs)" using assms xs by auto
  then have "chain m x (x # cs)" by (rule chain_suffix)
  moreover have "chain m x (x # as @ x # cs)" using assms xs by auto
  ultimately have "x # cs = x # as @ x # cs" by (rule chain_functional)
  then have "length cs = length (as @ x # cs)" by simp
  then show False by simp
qed

lemma chain_distinct: "chain m p xs \<Longrightarrow> distinct xs"
proof (induction xs arbitrary: p)
  case Nil
  then show ?case by simp
next
  case (Cons x xs)
  from Cons.prems have "x \<notin> set xs" by (rule chain_head_notin_tail)
  moreover from Cons.prems obtain b where "m x = Some b" "chain m (next_blk b) xs"
    by (auto split: option.splits)
  then have "distinct xs" using Cons.IH by blast
  ultimately show ?case by simp
qed

lemma chain_set_nonzero: "chain m p xs \<Longrightarrow> x \<in> set xs \<Longrightarrow> x \<noteq> nullptr \<and> x \<in> dom m"
  by (induction xs arbitrary: p) (auto split: option.splits)

text \<open>Appending a fresh block \<open>n\<close> behind the last block of a chain.\<close>

lemma chain_snoc:
  assumes "chain m h xs" and "xs \<noteq> []" and "n \<notin> set xs" and "n \<noteq> nullptr"
    and "m (last xs) = Some bt" and "next_blk nb = nullptr"
  shows "chain (m(n \<mapsto> nb, last xs \<mapsto> bt\<lparr>next_blk := n\<rparr>)) h (xs @ [n])"
  using assms
proof (induction xs arbitrary: h)
  case Nil
  then show ?case by simp
next
  case (Cons x xs)
  from Cons.prems(1) obtain b where h: "h = x" "x \<noteq> nullptr"
    and b: "m x = Some b" and rest: "chain m (next_blk b) xs"
    by (auto split: option.splits)
  show ?case
  proof (cases xs)
    case Nil
    then have "next_blk b = nullptr" using rest by simp
    then show ?thesis
      using Nil h b Cons.prems by auto
  next
    case (Cons y ys)
    have "x \<notin> set xs" using Cons.prems(1) by (rule chain_head_notin_tail)
    then have ne: "x \<noteq> last xs" using Cons by auto
    have nx: "x \<noteq> n" using Cons.prems(3) by auto
    have last_eq: "last (x # xs) = last xs" using Cons by simp
    have xs: "xs \<noteq> []" "n \<notin> set xs" "m (last xs) = Some bt"
      using Cons Cons.prems(3,5) by simp_all
    define M where "M = m(n \<mapsto> nb, last xs \<mapsto> bt\<lparr>next_blk := n\<rparr>)"
    have IH': "chain M (next_blk b) (xs @ [n])"
      unfolding M_def by (rule Cons.IH [OF rest xs(1,2) Cons.prems(4) xs(3) Cons.prems(6)])
    have Mx: "M x = Some b"
      unfolding M_def using b ne nx by simp
    have "chain M h ((x # xs) @ [n])"
      using h Mx IH' by simp
    then show ?thesis
      unfolding M_def last_eq .
  qed
qed

lemma scan_order_set: "set (scan_order xs c) = set xs"
proof -
  have "set (takeWhile (\<lambda>x. x \<noteq> c) xs) \<union> set (dropWhile (\<lambda>x. x \<noteq> c) xs) = set xs"
    by (metis set_append takeWhile_dropWhile_id)
  then show ?thesis by (auto simp: scan_order_def)
qed

subsection \<open>A search returns only a block that fits\<close>

lemma findBlock_empty:
  assumes "heapStart s = nullptr" and "searchStart s = nullptr"
  shows "findBlock a s = Some (Inr (nullptr, s))"
  using assms
  by (cases "searchMode s")
     (simp_all add: search_defs firstFit_loop.simps bestFit_loop.simps)

lemma firstFit_loop_fits:
  assumes "firstFit_loop s a p = Some (Inr q)" and "q \<noteq> nullptr"
  shows "fits (memory s) a q"
proof -
  have "\<forall>q. Inr q = r \<longrightarrow> q \<noteq> nullptr \<longrightarrow> fits (memory s) a q"
    if "firstFit_loop s a p = Some r" for r
    using that
  proof (rule firstFit_loop.raw_induct
      [where P = "\<lambda>s a p r. \<forall>q. Inr q = r \<longrightarrow> q \<noteq> nullptr \<longrightarrow> fits (memory s) a q",
       rotated])
    fix loop :: "allocator \<Rightarrow> size_t \<Rightarrow> addr \<Rightarrow> (fault + addr) option"
      and s a p r
    assume IH: "\<And>s a p r. loop s a p = Some r \<Longrightarrow>
        \<forall>q. Inr q = r \<longrightarrow> q \<noteq> nullptr \<longrightarrow> fits (memory s) a q"
    assume body: "(if p = nullptr then Some (Inr nullptr)
      else case load s p of
        Inl e \<Rightarrow> Some (Inl e)
      | Inr b \<Rightarrow>
          if used_blk b \<or> size_blk b < a
          then loop s a (next_blk b)
          else Some (Inr p)) = Some r"
    have fit_p: "\<not> used_blk b \<Longrightarrow> \<not> size_blk b < a \<Longrightarrow> fits (memory s) a p"
      if "memory s p = Some b" for b
      using that by (simp add: fits_def)
    show "\<forall>q. Inr q = r \<longrightarrow> q \<noteq> nullptr \<longrightarrow> fits (memory s) a q"
      using body fit_p
      by (auto simp: load_def split: if_splits option.splits dest: IH)
  qed
  then show ?thesis using assms by blast
qed

lemma nextFit_loop_fits:
  assumes "nextFit_loop s a p = Some (Inr (q, s'))" and "q \<noteq> nullptr"
  shows "fits (memory s) a q"
proof -
  have "\<forall>q s'. Inr (q, s') = r \<longrightarrow> q \<noteq> nullptr \<longrightarrow> fits (memory s) a q"
    if "nextFit_loop s a p = Some r" for r
    using that
  proof (rule nextFit_loop.raw_induct
      [where P = "\<lambda>s a p r. \<forall>q s'. Inr (q, s') = r \<longrightarrow> q \<noteq> nullptr
                     \<longrightarrow> fits (memory s) a q",
       rotated])
    fix loop :: "allocator \<Rightarrow> size_t \<Rightarrow> addr \<Rightarrow> (fault + addr \<times> allocator) option"
      and s a p r
    assume IH: "\<And>s a p r. loop s a p = Some r \<Longrightarrow>
        \<forall>q s'. Inr (q, s') = r \<longrightarrow> q \<noteq> nullptr \<longrightarrow> fits (memory s) a q"
    assume body: "(case load s p of
        Inl e \<Rightarrow> Some (Inl e)
      | Inr b \<Rightarrow>
          if used_blk b \<or> size_blk b < a
          then (if next_blk b = nullptr
                then (if searchStart s = nullptr then Some (Inr (nullptr, s))
                      else if heapStart s = searchStart s then Some (Inr (nullptr, s))
                      else loop s a (heapStart s))
                else if next_blk b = searchStart s then Some (Inr (nullptr, s))
                else loop s a (next_blk b))
          else Some (Inr (p, s\<lparr>searchStart := p\<rparr>))) = Some r"
    have fit_p: "\<not> used_blk b \<Longrightarrow> \<not> size_blk b < a \<Longrightarrow> fits (memory s) a p"
      if "memory s p = Some b" for b
      using that by (simp add: fits_def)
    show "\<forall>q s'. Inr (q, s') = r \<longrightarrow> q \<noteq> nullptr \<longrightarrow> fits (memory s) a q"
      using body fit_p
      by (auto simp: load_def split: if_splits option.splits dest: IH)
  qed
  then show ?thesis using assms by blast
qed

lemma bestFit_loop_fits:
  assumes "bestFit_loop s a p best = Some (Inr q)" and "q \<noteq> nullptr"
    and "best = nullptr \<or> fits (memory s) a best"
  shows "fits (memory s) a q"
proof -
  have "(best = nullptr \<or> fits (memory s) a best) \<longrightarrow>
      (\<forall>q. Inr q = r \<longrightarrow> q \<noteq> nullptr \<longrightarrow> fits (memory s) a q)"
    if "bestFit_loop s a p best = Some r" for r
    using that
  proof (rule bestFit_loop.raw_induct
      [where P = "\<lambda>s a p best r. (best = nullptr \<or> fits (memory s) a best) \<longrightarrow>
         (\<forall>q. Inr q = r \<longrightarrow> q \<noteq> nullptr \<longrightarrow> fits (memory s) a q)", rotated])
    fix loop :: "allocator \<Rightarrow> size_t \<Rightarrow> addr \<Rightarrow> addr \<Rightarrow> (fault + addr) option"
      and s a p best r
    assume IH: "\<And>s a p best r. loop s a p best = Some r \<Longrightarrow>
        (best = nullptr \<or> fits (memory s) a best) \<longrightarrow>
        (\<forall>q. Inr q = r \<longrightarrow> q \<noteq> nullptr \<longrightarrow> fits (memory s) a q)"
    assume body: "(if p = nullptr then Some (Inr best)
      else case load s p of
        Inl e \<Rightarrow> Some (Inl e)
      | Inr b \<Rightarrow>
          if used_blk b \<or> size_blk b < a
          then loop s a (next_blk b) best
          else if size_blk b = a then Some (Inr p)
          else if best = nullptr
          then loop s a (next_blk b) p
          else (case load s best of
                  Inl e \<Rightarrow> Some (Inl e)
                | Inr bb \<Rightarrow>
                    if size_blk b < size_blk bb
                    then loop s a (next_blk b) p
                    else loop s a p best)) = Some r"
    show "(best = nullptr \<or> fits (memory s) a best) \<longrightarrow>
        (\<forall>q. Inr q = r \<longrightarrow> q \<noteq> nullptr \<longrightarrow> fits (memory s) a q)"
    proof (cases "p = nullptr")
      case True
      then show ?thesis using body by auto
    next
      case False
      note p = this
      show ?thesis
      proof (cases "memory s p")
        case None
        then show ?thesis using body p by (auto simp: load_def)
      next
        case (Some b)
        have fit_p: "\<not> used_blk b \<Longrightarrow> \<not> size_blk b < a \<Longrightarrow> fits (memory s) a p"
          using Some by (simp add: fits_def)
        show ?thesis
          using body p Some fit_p
          by (auto simp: load_def split: if_splits option.splits dest: IH)
      qed
    qed
  qed
  then show ?thesis using assms by blast
qed

lemma findBlock_fits:
  assumes "findBlock a s = Some (Inr (q, s'))" and "q \<noteq> nullptr"
  shows "fits (memory s) a q"
proof (cases "searchMode s")
  case FirstFit
  then obtain r where r: "firstFit_loop s a (heapStart s) = Some r"
      "map_sum id (\<lambda>block. (block, s)) r = Inr (q, s')"
    using assms(1) by (auto simp: findBlock_def firstFit_def)
  then have "r = Inr q" by (cases r) auto
  with r have "firstFit_loop s a (heapStart s) = Some (Inr q)" by simp
  then show ?thesis using assms(2) by (rule firstFit_loop_fits)
next
  case NextFit
  then have "nextFit_loop s a (if searchStart s = nullptr then heapStart s else searchStart s)
      = Some (Inr (q, s'))"
    using assms by (auto simp: findBlock_def nextFit_def Let_def split: if_splits)
  then show ?thesis using assms(2) by (rule nextFit_loop_fits)
next
  case BestFit
  then obtain r where r: "bestFit_loop s a (heapStart s) nullptr = Some r"
      "map_sum id (\<lambda>block. (block, s)) r = Inr (q, s')"
    using assms(1) by (auto simp: findBlock_def bestFit_def)
  then have "r = Inr q" by (cases r) auto
  with r have "bestFit_loop s a (heapStart s) nullptr = Some (Inr q)" by simp
  then show ?thesis using assms(2) by (rule bestFit_loop_fits) simp
qed



section \<open>Alignment\<close>

lemma and_not_7: "(x :: 64 word) AND NOT 7 = x - (x mod 8)"
proof -
  have m: "(7 :: 64 word) = mask 3" by (simp add: mask_eq_exp_minus_1)
  have "x AND NOT (mask 3) = push_bit 3 (drop_bit 3 x)"
    by (rule bit_eqI) (auto simp add: bit_simps)
  moreover have "push_bit 3 (drop_bit 3 x) + take_bit 3 x = x"
    by (rule bits_ident)
  moreover have "take_bit 3 x = x mod 8"
    by (simp add: take_bit_eq_mod)
  ultimately show ?thesis unfolding m
    by (metis add_diff_cancel_right')
qed

lemma unat_align:
  "unat (align n) = ((unat n + 7) mod 2 ^ 64) div 8 * 8"
proof -
  have "align n = (n + 7) AND NOT 7"
    by (simp add: align_def sizeof_word_t_def add.commute)
  then have "align n = (n + 7) - ((n + 7) mod 8)"
    by (simp only: and_not_7)
  moreover have "(n + 7) mod 8 \<le> n + 7"
    by (simp add: word_le_nat_alt unat_mod)
  ultimately have "unat (align n) = unat (n + 7) - unat ((n + 7) mod 8)"
    by (simp add: unat_sub)
  also have "\<dots> = unat (n + 7) - unat (n + 7) mod 8"
    by (simp add: unat_mod)
  also have "\<dots> = unat (n + 7) div 8 * 8"
    by (simp add: minus_mod_eq_div_mult)
  finally show ?thesis
    by (simp add: unat_word_ariths)
qed

lemma unat_lt_2p64: "unat (n :: 64 word) < 18446744073709551616"
  using unsigned_less [of n, where 'a = nat] by simp

lemma unat_align_small:
  assumes "unat n \<le> 18446744073709551608"
  shows "unat (align n) = (unat n + 7) div 8 * 8"
proof -
  have "unat n + 7 < 2 ^ 64" using assms by simp
  then show ?thesis by (simp add: unat_align)
qed

lemma align_large:
  assumes "18446744073709551608 < unat n"
  shows "align n = 0"
proof -
  have lt: "unat n < 18446744073709551616" by (rule unat_lt_2p64)
  have "(unat n + 7) mod 2 ^ 64 = unat n + 7 - 2 ^ 64"
    using assms lt by (simp add: mod_if)
  moreover have "unat n + 7 - 2 ^ 64 < 8" using lt by simp
  ultimately have "unat (align n) = 0" by (simp add: unat_align)
  then show ?thesis by (simp add: unat_eq_0)
qed

text \<open>
  C7, as the code has it. \<^verbatim>\<open>align\<close> returns a plain \<^verbatim>\<open>size_t\<close> and checks nothing. For
  \<open>n \<le> 2^64 - 8\<close> it rounds \<open>n\<close> up to the next multiple of the word size 8 and leaves
  a multiple unchanged; for the seven larger values the sum \<open>n + 7\<close> wraps modulo
  \<open>2^64\<close> and the result is 0, with no error.
\<close>

theorem align_rounds_up_without_overflow_check:
  "(unat n \<le> 18446744073709551608 \<longrightarrow>
      unat (align n) = (unat n + 7) div 8 * 8
      \<and> 8 dvd unat (align n) \<and> unat n \<le> unat (align n) \<and> unat (align n) < unat n + 8
      \<and> (8 dvd unat n \<longrightarrow> align n = n))
   \<and> (18446744073709551608 < unat n \<longrightarrow> align n = 0)"
proof (intro conjI impI)
  assume small: "unat n \<le> 18446744073709551608"
  then show eq: "unat (align n) = (unat n + 7) div 8 * 8" by (rule unat_align_small)
  show "8 dvd unat (align n)" by (simp add: eq)
  show "unat n \<le> unat (align n)" unfolding eq by presburger
  show "unat (align n) < unat n + 8" unfolding eq by presburger
  assume "8 dvd unat n"
  then have "(unat n + 7) div 8 * 8 = unat n" by presburger
  then have "unat (align n) = unat n" by (simp add: eq)
  then show "align n = n" by (simp add: word_unat_eq_iff)
next
  assume "18446744073709551608 < unat n"
  then show "align n = 0" by (rule align_large)
qed

text \<open>The theorem at 13 (rounded up to 16), at 16 (unchanged) and at \<open>2^64 - 3\<close> (wrapped).\<close>

theorem align_rounds_up_without_overflow_check_witness:
  "unat (align 13) = 16 \<and> align 16 = 16 \<and> align 18446744073709551613 = 0"
  using align_rounds_up_without_overflow_check [of 13]
    align_rounds_up_without_overflow_check [of 16]
    align_rounds_up_without_overflow_check [of 18446744073709551613]
  by simp

text \<open>
  C7 as stated fails at \<open>n = 2^64 - 1\<close>: the rounding overflows, and \<^verbatim>\<open>align\<close> returns
  the wrapped value 0 instead of rejecting the request.
\<close>

theorem align_overflow_counterexample:
  "align 18446744073709551615 = 0"
  by (simp add: align_def sizeof_word_t_def)

section \<open>Header and payload\<close>

text \<open>
  C9. The payload of a block lies at the fixed offset 24 after its header, and
  \<^verbatim>\<open>getHeader\<close> undoes \<^verbatim>\<open>block->data\<close>: the header view and the payload view of one
  allocation determine each other.
\<close>

theorem header_payload_round_trip:
  "data_of block = block + offsetof_data
   \<and> getHeader (data_of block) = block
   \<and> data_of (getHeader data) = data"
  by (simp add: getHeader_def data_of_def layout_defs)

section \<open>\<^verbatim>\<open>free\<close>\<close>

text \<open>
  C10. For a handle that resolves to a block, \<^verbatim>\<open>free\<close> returns normally and changes
  only that block's \<open>used\<close> flag, to false: the block's size and next link, every
  other block, heap start, top, the cursor, the mode and the break are as before,
  and freeing the same handle again changes nothing more.
\<close>

theorem free_frame:
  assumes "getHeader data \<noteq> nullptr"
    and "memory s (getHeader data) = Some b"
  shows "\<exists>s'. free data s = Inr s'
      \<and> memory s' (getHeader data) = Some (b\<lparr>used_blk := False\<rparr>)
      \<and> (\<forall>p. p \<noteq> getHeader data \<longrightarrow> memory s' p = memory s p)
      \<and> heapStart s' = heapStart s \<and> top_ptr s' = top_ptr s
      \<and> searchStart s' = searchStart s \<and> searchMode s' = searchMode s
      \<and> program_break s' = program_break s
      \<and> break_min s' = break_min s \<and> break_max s' = break_max s
      \<and> free data s' = Inr s'"
  using assms by (simp add: free_def access_defs)

text \<open>The theorem at the handle 4120 of the one used block of \<open>one_used8\<close>.\<close>

theorem free_frame_witness:
  "free 4120 one_used8 = Inr one_free8 \<and> free 4120 one_free8 = Inr one_free8"
  using free_frame [of 4120 one_used8 "\<lparr>size_blk = 8, used_blk = True, next_blk = nullptr\<rparr>"]
  by (simp add: free_def getHeader_def access_defs layout_defs one_used8_def one_free8_def)

text \<open>
  C3, as the code has it. \<^verbatim>\<open>free\<close> has no result and no check of the flag: freeing a
  handle whose block is already free returns normally, and the state is unchanged.
\<close>

theorem free_of_free_block:
  assumes "getHeader data \<noteq> nullptr"
    and "memory s (getHeader data) = Some b"
    and "\<not> used_blk b"
  shows "free data s = Inr s"
  using assms by (simp add: free_def access_defs map_upd_triv)

text \<open>The theorem at the handle 4160 of the free second block of \<open>two_b_free\<close>.\<close>

theorem free_of_free_block_witness:
  "getHeader 4160 = 4136 \<and> free 4160 two_b_free = Inr two_b_free"
  using free_of_free_block
    [of 4160 two_b_free "\<lparr>size_blk = 32, used_blk = False, next_blk = nullptr\<rparr>"]
  by (simp add: getHeader_def layout_defs two_b_free_def)

text \<open>
  C3 as stated fails: after \<^verbatim>\<open>alloc(8)\<close> and \<^verbatim>\<open>free\<close>, the second \<^verbatim>\<open>free\<close> of the same
  handle is not a failure.
\<close>

theorem double_free_counterexample:
  "\<not> isl (free 4120 one_free8)"
  by (simp add: free_def getHeader_def access_defs layout_defs one_free8_def)

text \<open>
  C1, as the code has it. \<^verbatim>\<open>free\<close> never merges. When the next block of the freed block
  is free, the freed block keeps its size and its next link, the next block stays as
  it is, and the chain from the heap start is the same list of blocks; provided the
  merged size does not wrap, no search for the merged size selects the freed block.
\<close>

theorem free_does_not_coalesce:
  assumes "getHeader data \<noteq> nullptr"
    and "memory s (getHeader data) = Some b"
    and "memory s (next_blk b) = Some nb"
    and "\<not> used_blk nb"
    and "size_blk b < size_blk b + allocSize (size_blk nb)"
  shows "\<exists>s'. free data s = Inr s'
      \<and> memory s' (getHeader data) =
          Some \<lparr>size_blk = size_blk b, used_blk = False, next_blk = next_blk b\<rparr>
      \<and> memory s' (next_blk b) = Some nb
      \<and> dom (memory s') = dom (memory s)
      \<and> (\<forall>xs. chain (memory s') (heapStart s') xs = chain (memory s) (heapStart s) xs)
      \<and> (\<forall>q s''. findBlock (size_blk b + allocSize (size_blk nb)) s' = Some (Inr (q, s''))
            \<longrightarrow> q \<noteq> getHeader data)"
proof -
  let ?s' = "s\<lparr>memory := (memory s)(getHeader data \<mapsto> b\<lparr>used_blk := False\<rparr>)\<rparr>"
  let ?merged = "size_blk b + allocSize (size_blk nb)"
  have "free data s = Inr ?s'"
    using assms(1,2) by (simp add: free_def access_defs)
  moreover have "memory ?s' (getHeader data) =
      Some \<lparr>size_blk = size_blk b, used_blk = False, next_blk = next_blk b\<rparr>"
    by simp
  moreover have "memory ?s' (next_blk b) = Some nb"
    using assms(2,3,4) by (cases "next_blk b = getHeader data") auto
  moreover have "dom (memory ?s') = dom (memory s)"
    using assms(2) by auto
  moreover have "\<forall>xs. chain (memory ?s') (heapStart ?s') xs = chain (memory s) (heapStart s) xs"
    using assms(2) by (simp add: chain_same_links)
  moreover have "\<forall>q s''. findBlock ?merged ?s' = Some (Inr (q, s'')) \<longrightarrow> q \<noteq> getHeader data"
  proof (intro allI impI notI)
    fix q s''
    assume "findBlock ?merged ?s' = Some (Inr (q, s''))" and "q = getHeader data"
    then have "fits (memory ?s') ?merged (getHeader data)"
      using assms(1) findBlock_fits by blast
    then show False
      using assms(5) by (simp add: fits_def)
  qed
  ultimately show ?thesis by blast
qed

text \<open>
  The theorem at the handle 4120 of the first block of \<open>two_b_free\<close>, whose next block
  (32 bytes) is free: both blocks are still in the chain.
\<close>

theorem free_does_not_coalesce_witness:
  "free 4120 two_b_free = Inr two_free
   \<and> chain (memory two_free) (heapStart two_free) [4096, 4136]"
  using free_does_not_coalesce [of 4120 two_b_free
      "\<lparr>size_blk = 16, used_blk = True, next_blk = 4136\<rparr>"
      "\<lparr>size_blk = 32, used_blk = False, next_blk = nullptr\<rparr>"]
  by (auto simp add: free_def getHeader_def access_defs layout_defs allocSize_def
      two_b_free_def two_free_def fun_eq_iff)

text \<open>
  C1 as stated fails on two chain-adjacent blocks of sizes 16 and 32, the second
  already free: after \<^verbatim>\<open>free\<close> of the first its size is still 16, not \<open>16 + 56 = 72\<close>, its
  next link still leads to the second block, and \<^verbatim>\<open>alloc(72)\<close> grows the region by a
  third block at the old break 4192.
\<close>

theorem free_coalesce_counterexample:
  "free 4120 two_b_free = Inr two_free
   \<and> memory two_free 4096 = Some \<lparr>size_blk = 16, used_blk = False, next_blk = 4136\<rparr>
   \<and> 16 + allocSize 32 = 72
   \<and> alloc 72 two_free = Some (Inr (4216, three_grown))"
  by (auto simp add: run_defs firstFit_loop.simps two_b_free_def two_free_def three_grown_def
      fun_eq_iff)

section \<open>\<^verbatim>\<open>alloc\<close>\<close>

text \<open>
  A handle that \<^verbatim>\<open>alloc\<close> returns resolves to a block of the new state, marked used:
  it is a handle \<^verbatim>\<open>free\<close> accepts.
\<close>

lemma alloc_handle_resolves:
  assumes "alloc sz s = Some (Inr (p, s'))"
  shows "getHeader p \<noteq> nullptr \<and> (\<exists>b. memory s' (getHeader p) = Some b \<and> used_blk b)"
  using assms
  unfolding alloc_def Let_def
  by (auto simp: store_Inr getHeader_def data_of_def layout_defs
      split: option.splits sum.splits prod.splits if_splits)

text \<open>
  When the search finds nothing and the operating system denies the growth,
  \<^verbatim>\<open>alloc\<close> dereferences the null pointer that \<^verbatim>\<open>requestFromOS\<close> returns.
\<close>

lemma alloc_denied_null_dereference:
  assumes "findBlock (align sz) s = Some (Inr (nullptr, s1))"
    and "allocSize (align sz) \<noteq> 0"
    and "uint (program_break s1) + sint (allocSize (align sz)) < uint (break_min s1)
       \<or> uint (break_max s1) < uint (program_break s1) + sint (allocSize (align sz))"
  shows "alloc sz s = Some (Inl NullDereference)"
  using assms
  by (auto simp: alloc_def Let_def requestFromOS_def sbrk_def store_def load_def)

text \<open>
  C4. With the break at its limit the operating system denies every growth;
  \<^verbatim>\<open>requestFromOS\<close> then returns the null pointer, and \<^verbatim>\<open>alloc\<close> writes the size
  through it: the run ends in a null dereference, not in an out-of-memory result.
\<close>

theorem alloc_growth_denied_null_dereference:
  "alloc 8 (init FirstFit (initial_state 4096 4096)) = Some (Inl NullDereference)"
  by (simp add: run_defs firstFit_loop.simps)




text \<open>
  Whatever block the search finds is handed out whole: \<^verbatim>\<open>alloc\<close> only sets its
  \<open>used\<close> flag, so its size stays and no other header appears.
\<close>

lemma alloc_reuse_whole:
  assumes "findBlock (align sz) s = Some (Inr (found, s1))" and "found \<noteq> nullptr"
    and "alloc sz s = Some (Inr (p, s'))"
  shows "p = data_of found
    \<and> (\<exists>b. memory s1 found = Some b
           \<and> s' = s1\<lparr>memory := (memory s1)(found \<mapsto> b\<lparr>used_blk := True\<rparr>)\<rparr>)"
  using assms by (auto simp: alloc_def Let_def store_Inr split: sum.splits)

text \<open>
  C2. \<^verbatim>\<open>alloc\<close> never splits. After \<^verbatim>\<open>alloc(64)\<close> and \<^verbatim>\<open>free\<close>, \<^verbatim>\<open>alloc(16)\<close> hands out the
  whole block of 64 bytes and no remainder appears; the last \<^verbatim>\<open>alloc(16)\<close> of the
  best-fit test of \<^verbatim>\<open>main\<close> leaves four blocks, the reused one still of size 64, where
  its comment expects five. \<^verbatim>\<open>split\<close> itself returns the null pointer, which
  \<^verbatim>\<open>listAllocate\<close> would write through.
\<close>

theorem alloc_reuses_whole_block:
  "alloc 16 one_free64 = Some (Inr (4120, one_used64))
   \<and> alloc 16 main_best_fit_before = Some (Inr (4152, main_best_fit_after))
   \<and> split 4096 16 one_free64 = Inr nullptr
   \<and> listAllocate 4096 16 one_free64 = Inl NullDereference"
  by (auto simp add: run_defs firstFit_loop.simps bestFit_loop.simps one_free64_def
      one_used64_def main_best_fit_before_def main_best_fit_after_def
      split_def canSplit_def listAllocate_def fun_eq_iff)

section \<open>Best fit\<close>

text \<open>
  Once a candidate is held, a free block that is large enough, not an exact match and
  not smaller than the candidate leaves both \<^verbatim>\<open>block\<close> and \<^verbatim>\<open>bestFitBlock\<close> as they
  are: the loop makes no progress and does not return.
\<close>

lemma bestFit_loop_stuck:
  assumes "block \<noteq> nullptr" and "memory s block = Some b"
    and "\<not> used_blk b" and "\<not> size_blk b < alignedSize" and "size_blk b \<noteq> alignedSize"
    and "bestFitBlock \<noteq> nullptr" and "memory s bestFitBlock = Some bb"
    and "\<not> size_blk b < size_blk bb"
  shows "bestFit_loop s alignedSize block bestFitBlock = None"
proof (cases "bestFit_loop s alignedSize block bestFitBlock")
  case None
  then show ?thesis .
next
  case (Some y)
  have "(s, alignedSize, block, bestFitBlock) \<noteq> (s, alignedSize, block, bestFitBlock)"
  proof (rule bestFit_loop.raw_induct
      [where P = "\<lambda>s' a' block' best' y'.
                    (s', a', block', best') \<noteq> (s, alignedSize, block, bestFitBlock)",
       OF _ Some])
    fix loop :: "allocator \<Rightarrow> size_t \<Rightarrow> addr \<Rightarrow> addr \<Rightarrow> (fault + addr) option"
      and s' a' block' best' y'
    assume IH: "\<And>s' a' block' best' y'. loop s' a' block' best' = Some y' \<Longrightarrow>
        (s', a', block', best') \<noteq> (s, alignedSize, block, bestFitBlock)"
    assume body: "(if block' = nullptr then Some (Inr best')
      else case load s' block' of
        Inl e \<Rightarrow> Some (Inl e)
      | Inr b \<Rightarrow>
          if used_blk b \<or> size_blk b < a'
          then loop s' a' (next_blk b) best'
          else if size_blk b = a' then Some (Inr block')
          else if best' = nullptr
          then loop s' a' (next_blk b) block'
          else (case load s' best' of
                  Inl e \<Rightarrow> Some (Inl e)
                | Inr bb \<Rightarrow>
                    if size_blk b < size_blk bb
                    then loop s' a' (next_blk b) block'
                    else loop s' a' block' best')) = Some y'"
    show "(s', a', block', best') \<noteq> (s, alignedSize, block, bestFitBlock)"
    proof
      assume "(s', a', block', best') = (s, alignedSize, block, bestFitBlock)"
      then have eq: "s' = s" "a' = alignedSize" "block' = block" "best' = bestFitBlock"
        by simp_all
      from body have "loop s alignedSize block bestFitBlock = Some y'"
        using assms unfolding eq by (simp add: load_def)
      then show False
        using IH by blast
    qed
  qed
  then show ?thesis by simp
qed

text \<open>
  C5. With free blocks of 32 and 64 bytes in the chain, in this order, the best-fit
  search for 16 bytes takes the first as its candidate and then stays on the second
  for ever: neither \<^verbatim>\<open>bestFit\<close> nor \<^verbatim>\<open>alloc\<close> returns.
\<close>

theorem bestFit_never_returns:
  "bestFit 16 best_two_free = None \<and> alloc 16 best_two_free = None"
proof -
  have stuck: "bestFit_loop best_two_free 16 4152 4096 = None"
    by (rule bestFit_loop_stuck
          [where b = "\<lparr>size_blk = 64, used_blk = False, next_blk = nullptr\<rparr>"
             and bb = "\<lparr>size_blk = 32, used_blk = False, next_blk = 4152\<rparr>"])
       (simp_all add: best_two_free_def)
  have "bestFit_loop best_two_free 16 4096 nullptr = bestFit_loop best_two_free 16 4152 4096"
    by (subst bestFit_loop.simps) (simp add: load_def best_two_free_def)
  then have b: "bestFit 16 best_two_free = None"
    using stuck by (simp add: bestFit_def best_two_free_def)
  then have "findBlock 16 best_two_free = None"
    by (simp add: findBlock_def best_two_free_def)
  then have "alloc 16 best_two_free = None"
    by (simp add: alloc_def align_def sizeof_word_t_def)
  with b show ?thesis by simp
qed

section \<open>Next fit\<close>

text \<open>Scanning with no cursor: from the current block to the end of the chain.\<close>

lemma nextFit_loop_no_cursor:
  assumes "searchStart s = nullptr"
  shows "chain (memory s) p zs \<Longrightarrow> zs \<noteq> [] \<Longrightarrow>
    nextFit_loop s a p = Some (Inr (found_result s (find (fits (memory s) a) zs)))"
proof (induction zs arbitrary: p)
  case Nil
  then show ?case by simp
next
  case (Cons z zs)
  from Cons.prems obtain b where p: "p = z" "z \<noteq> nullptr"
    and b: "memory s z = Some b" and rest: "chain (memory s) (next_blk b) zs"
    by (auto split: option.splits)
  show ?case
  proof (cases "fits (memory s) a z")
    case True
    then show ?thesis
      using p b by (subst nextFit_loop.simps) (auto simp: load_def fits_def found_result_def)
  next
    case False
    show ?thesis
    proof (cases zs)
      case Nil
      then have "next_blk b = nullptr" using rest by simp
      then show ?thesis
        using p b False Nil assms
        by (subst nextFit_loop.simps) (auto simp: load_def fits_def found_result_def)
    next
      case (Cons z' zs')
      then have n: "next_blk b \<noteq> nullptr" using rest by auto
      have "nextFit_loop s a (next_blk b) =
          Some (Inr (found_result s (find (fits (memory s) a) zs)))"
        using Cons.IH [OF rest] Cons by simp
      then show ?thesis
        using p b False n assms
        by (subst nextFit_loop.simps) (auto simp: load_def fits_def)
    qed
  qed
qed

text \<open>After the wrap: from the head of the chain up to the block before the cursor.\<close>

lemma nextFit_loop_before_cursor:
  assumes "searchStart s = c"
  shows "chain (memory s) p (ys @ c # zs) \<Longrightarrow> ys \<noteq> [] \<Longrightarrow> c \<notin> set ys \<Longrightarrow>
    nextFit_loop s a p = Some (Inr (found_result s (find (fits (memory s) a) ys)))"
proof (induction ys arbitrary: p)
  case Nil
  then show ?case by simp
next
  case (Cons y ys)
  from Cons.prems obtain b where p: "p = y" "y \<noteq> nullptr"
    and b: "memory s y = Some b" and rest: "chain (memory s) (next_blk b) (ys @ c # zs)"
    by (auto split: option.splits)
  show ?case
  proof (cases "fits (memory s) a y")
    case True
    then show ?thesis
      using p b by (subst nextFit_loop.simps) (auto simp: load_def fits_def found_result_def)
  next
    case False
    show ?thesis
    proof (cases ys)
      case Nil
      then have "next_blk b = c" "c \<noteq> nullptr" using rest by auto
      then show ?thesis
        using p b False Nil assms
        by (subst nextFit_loop.simps) (auto simp: load_def fits_def found_result_def)
    next
      case (Cons y' ys')
      then have n: "next_blk b = y'" "y' \<noteq> nullptr" using rest by auto
      have "y' \<noteq> c" using Cons.prems(3) Cons by auto
      moreover have "nextFit_loop s a (next_blk b) =
          Some (Inr (found_result s (find (fits (memory s) a) ys)))"
        using Cons.IH [OF rest] Cons.prems(3) Cons by simp
      ultimately show ?thesis
        using p b False n assms
        by (subst nextFit_loop.simps) (auto simp: load_def fits_def)
    qed
  qed
qed

text \<open>Before the wrap: from the cursor to the end of the chain, then on from the head.\<close>

lemma nextFit_loop_from_cursor:
  assumes "searchStart s = c" and "c \<noteq> nullptr"
    and whole: "chain (memory s) (heapStart s) (pre @ c # post)" and "c \<notin> set pre"
  shows "chain (memory s) p zs \<Longrightarrow> zs \<noteq> [] \<Longrightarrow> c \<notin> set (tl zs) \<Longrightarrow>
    nextFit_loop s a p = Some (Inr (found_result s (find (fits (memory s) a) (zs @ pre))))"
proof (induction zs arbitrary: p)
  case Nil
  then show ?case by simp
next
  case (Cons z zs)
  from Cons.prems obtain b where p: "p = z" "z \<noteq> nullptr"
    and b: "memory s z = Some b" and rest: "chain (memory s) (next_blk b) zs"
    by (auto split: option.splits)
  show ?case
  proof (cases "fits (memory s) a z")
    case True
    then show ?thesis
      using p b by (subst nextFit_loop.simps) (auto simp: load_def fits_def found_result_def)
  next
    case False
    show ?thesis
    proof (cases zs)
      case Nil
      then have n: "next_blk b = nullptr" using rest by simp
      show ?thesis
      proof (cases pre)
        case Nil
        then have "heapStart s = c" using whole by simp
        then show ?thesis
          using p b False n assms(1,2) Nil \<open>zs = []\<close>
          by (subst nextFit_loop.simps) (auto simp: load_def fits_def found_result_def)
      next
        case (Cons h pre')
        then have "heapStart s = h" using whole by simp
        moreover have "h \<noteq> c" using assms(4) Cons by auto
        moreover have "nextFit_loop s a (heapStart s) =
            Some (Inr (found_result s (find (fits (memory s) a) pre)))"
          using nextFit_loop_before_cursor [OF assms(1) whole _ assms(4)] Cons by simp
        ultimately show ?thesis
          using p b False n assms(1,2) \<open>zs = []\<close>
          by (subst nextFit_loop.simps) (auto simp: load_def fits_def)
      qed
    next
      case (Cons z' zs')
      then have n: "next_blk b = z'" "z' \<noteq> nullptr" using rest by auto
      have "z' \<noteq> c" using Cons.prems(3) Cons by auto
      moreover have "nextFit_loop s a (next_blk b) =
          Some (Inr (found_result s (find (fits (memory s) a) (zs @ pre))))"
        using Cons.IH [OF rest] Cons.prems(3) Cons by simp
      ultimately show ?thesis
        using p b False n assms(1)
        by (subst nextFit_loop.simps) (auto simp: load_def fits_def)
    qed
  qed
qed

text \<open>
  The code against the specification's scan, on a chain that ends in the null pointer
  with the cursor unset or on a block of the chain.
\<close>

lemma nextFit_refines:
  assumes wf: "chain (memory s) (heapStart s) xs"
    and cur: "searchStart s = nullptr \<or> searchStart s \<in> set xs"
  shows "nextFit a s = Some (Inr (nextFit_spec xs a s))"
proof (cases "searchStart s = nullptr")
  case True
  show ?thesis
  proof (cases xs)
    case Nil
    then have "heapStart s = nullptr" using wf by simp
    then show ?thesis
      using True Nil by (simp add: nextFit_def nextFit_spec_def scan_order_def found_result_def)
  next
    case (Cons x xs')
    then have "heapStart s \<noteq> nullptr" using wf by auto
    moreover have "nextFit_loop s a (heapStart s) =
        Some (Inr (found_result s (find (fits (memory s) a) xs)))"
      using nextFit_loop_no_cursor [OF True wf] Cons by simp
    ultimately show ?thesis
      using True by (simp add: nextFit_def nextFit_spec_def scan_order_def)
  qed
next
  case False
  define c where "c = searchStart s"
  have c: "searchStart s = c" "c \<noteq> nullptr" "c \<in> set xs"
    using False cur by (simp_all add: c_def)
  then obtain pre post where xs: "xs = pre @ c # post" and pre: "c \<notin> set pre"
    by (auto dest: split_list_first)
  have "distinct xs" using wf by (rule chain_distinct)
  then have post: "c \<notin> set post" using xs by simp
  have suffix: "chain (memory s) c (c # post)"
    using wf unfolding xs by (rule chain_suffix)
  have order: "scan_order xs c = (c # post) @ pre"
  proof -
    have "dropWhile (\<lambda>x. x \<noteq> c) pre = []" "takeWhile (\<lambda>x. x \<noteq> c) pre = pre"
      using pre by (auto simp: dropWhile_eq_Nil_conv takeWhile_eq_all_conv)
    then show ?thesis
      using c(2) by (simp add: scan_order_def xs)
  qed
  have "nextFit_loop s a c =
      Some (Inr (found_result s (find (fits (memory s) a) ((c # post) @ pre))))"
    using nextFit_loop_from_cursor [OF c(1,2) wf [unfolded xs] pre suffix] post by simp
  then show ?thesis
    using c order by (simp add: nextFit_def nextFit_spec_def)
qed

section \<open>Reachable states\<close>

lemma wf_update:
  assumes "wf_state s xs" and "memory s q = Some b" and "next_blk b' = next_blk b"
  shows "wf_state (s\<lparr>memory := (memory s)(q \<mapsto> b')\<rparr>) xs"
  using assms by (auto simp: wf_state_def chain_same_links)

lemma free_preserves_wf:
  assumes "wf_state s xs" and "free data s = Inr s'"
  shows "wf_state s' xs"
  using assms by (auto simp: free_def store_Inr intro: wf_update)

lemma requestFromOS_granted:
  assumes "requestFromOS a s = (block, s2)" and "block \<noteq> nullptr"
    and "memory s2 block = Some b0"
    and "\<forall>p \<in> dom (memory s). uint p + 24 \<le> uint (program_break s)"
  shows "block = program_break s
    \<and> uint (program_break s) + 24 \<le> uint (program_break s2)
    \<and> s2 = s\<lparr>program_break := program_break s2,
             memory := (memory s)(program_break s \<mapsto> zero_Block)\<rparr>"
proof -
  let ?new = "uint (program_break s) + sint (allocSize a)"
  have unmapped: "memory s (program_break s) = None"
  proof (cases "memory s (program_break s)")
    case None
    then show ?thesis .
  next
    case (Some b)
    then have "program_break s \<in> dom (memory s)" by (rule domI)
    then have "uint (program_break s) + 24 \<le> uint (program_break s)"
      using assms(4) by blast
    then show ?thesis by simp
  qed
  have range: "allocSize a \<noteq> 0" "\<not> ?new < uint (break_min s)" "?new \<le> uint (break_max s)"
    and blk: "block = program_break s" and s2: "s2 = move_break ?new s"
    using assms(1,2,3) unmapped
    by (auto simp: requestFromOS_def sbrk_def Let_def split: if_splits)
  have fits: "uint (program_break s) + 24 \<le> ?new"
    using assms(3) unmapped unfolding s2 blk
    by (auto simp: move_break_def split: if_splits)
  have gen: "uint (word_of_int k :: 64 word) = k" if "0 \<le> k" and "k < 2 ^ 64" for k :: int
    using that by (simp add: uint_word_of_int_eq take_bit_int_eq_self)
  have "uint (break_max s) < 2 ^ 64" using uint_lt2p [of "break_max s"] by simp
  then have "0 \<le> ?new" "?new < 2 ^ 64"
    using fits range(3) by simp_all
  then have "uint (word_of_int ?new :: 64 word) = ?new"
    by (rule gen)
  then have "uint (program_break s) + 24 \<le> uint (program_break (move_break ?new s))"
    using fits unfolding move_break_def by (simp del: of_int_add)
  moreover have "move_break ?new s =
      s\<lparr>program_break := program_break (move_break ?new s),
        memory := (memory s)(program_break s \<mapsto> zero_Block)\<rparr>"
    using fits unmapped unfolding move_break_def by (simp del: of_int_add)
  ultimately show ?thesis
    using blk s2 by simp
qed

lemma wf_cursor:
  assumes "wf_state s xs" and "c \<in> set xs"
  shows "wf_state (s\<lparr>searchStart := c\<rparr>) xs"
  using assms by (simp add: wf_state_def)

lemma findBlock_wf:
  assumes wf: "wf_state s xs" and fb: "findBlock a s = Some (Inr (found, s1))"
  shows "wf_state s1 xs \<and> (found = nullptr \<longrightarrow> s1 = s)"
proof (cases "searchMode s")
  case FirstFit
  then obtain r :: "fault + addr"
    where "map_sum id (\<lambda>block. (block, s)) r = Inr (found, s1)"
    using fb by (auto simp: findBlock_def)
  then have "s1 = s" by (cases r) auto
  then show ?thesis using wf by simp
next
  case BestFit
  then obtain r :: "fault + addr"
    where "map_sum id (\<lambda>block. (block, s)) r = Inr (found, s1)"
    using fb by (auto simp: findBlock_def)
  then have "s1 = s" by (cases r) auto
  then show ?thesis using wf by simp
next
  case NextFit
  have ch: "chain (memory s) (heapStart s) xs"
    and cur: "searchStart s = nullptr \<or> searchStart s \<in> set xs"
    using wf by (simp_all add: wf_state_def)
  have "nextFit a s = Some (Inr (nextFit_spec xs a s))"
    using ch cur by (rule nextFit_refines)
  then have res: "(found, s1) = nextFit_spec xs a s"
    using fb NextFit by (simp add: findBlock_def)
  show ?thesis
  proof (cases "find (fits (memory s) a) (scan_order xs (searchStart s))")
    case None
    then show ?thesis
      using res wf by (simp add: nextFit_spec_def found_result_def)
  next
    case (Some q)
    then have "q \<in> set (scan_order xs (searchStart s))"
      by (auto simp: find_Some_iff)
    then have q: "q \<in> set xs" by (simp add: scan_order_set)
    then have "q \<noteq> nullptr" using ch chain_set_nonzero by blast
    then show ?thesis
      using res Some q wf by (simp add: nextFit_spec_def found_result_def wf_cursor)
  qed
qed

lemma alloc_preserves_wf:
  assumes wf: "wf_state s xs" and al: "alloc sz s = Some (Inr (p, s'))"
  shows "\<exists>xs'. wf_state s' xs'"
proof -
  let ?a = "align sz"
  from al obtain found s1 where fb: "findBlock ?a s = Some (Inr (found, s1))"
    by (auto simp: alloc_def Let_def split: option.splits sum.splits)
  then have wf1: "wf_state s1 xs" and same: "found = nullptr \<Longrightarrow> s1 = s"
    using findBlock_wf [OF wf] by simp_all
  show ?thesis
  proof (cases "found = nullptr")
    case False
    then obtain b where "memory s1 found = Some b"
        and "s' = s1\<lparr>memory := (memory s1)(found \<mapsto> b\<lparr>used_blk := True\<rparr>)\<rparr>"
      using al fb by (auto simp: alloc_def Let_def store_Inr split: sum.splits)
    then have "wf_state s' xs"
      using wf1 by (simp add: wf_update)
    then show ?thesis ..
  next
    case True
    then have s1: "s1 = s" by (rule same)
    obtain block s2 where req: "requestFromOS ?a s = (block, s2)"
      by (cases "requestFromOS ?a s")
    let ?nb = "\<lparr>size_blk = ?a, used_blk = True, next_blk = nullptr\<rparr>"
    from al fb True s1 req obtain s3 where st3: "store block (\<lambda>b. b\<lparr>size_blk := ?a\<rparr>) s2 = Inr s3"
      by (auto simp: alloc_def Let_def split: sum.splits)
    then obtain b0 where blk: "block \<noteq> nullptr" "memory s2 block = Some b0"
      by (auto simp: store_Inr)
    have bound: "\<forall>p \<in> dom (memory s). uint p + 24 \<le> uint (program_break s)"
      using wf by (simp add: wf_state_def)
    from requestFromOS_granted [OF req blk bound]
    have block: "block = program_break s"
      and grown: "uint (program_break s) + 24 \<le> uint (program_break s2)"
      and s2: "s2 = s\<lparr>program_break := program_break s2,
             memory := (memory s)(program_break s \<mapsto> zero_Block)\<rparr>"
      by simp_all
    have fresh: "block \<notin> dom (memory s)"
      using bound block by (auto dest!: bspec)
    have ch: "chain (memory s) (heapStart s) xs"
      and cur: "searchStart s = nullptr \<or> searchStart s \<in> set xs"
      and top: "top_ptr s = (if xs = [] then nullptr else last xs)"
      using wf by (simp_all add: wf_state_def)
    have "0 \<le> uint (program_break s)" by simp
    with grown have "0 < uint (program_break s2)" by linarith
    then have pb: "program_break s2 \<noteq> nullptr" by auto
    have bound2: "\<forall>p \<in> dom (memory s). uint p + 24 \<le> uint (program_break s2)"
    proof
      fix p
      assume "p \<in> dom (memory s)"
      then have "uint p + 24 \<le> uint (program_break s)" using bound by blast
      then show "uint p + 24 \<le> uint (program_break s2)" using grown by linarith
    qed
    show ?thesis
    proof (cases xs)
      case Nil
      then have empty: "heapStart s = nullptr" "top_ptr s = nullptr" "searchStart s = nullptr"
        using ch top cur by simp_all
      then have "s' = s\<lparr>program_break := program_break s2,
          memory := (memory s)(block \<mapsto> ?nb), heapStart := block, top_ptr := block\<rparr>"
        using al fb True s1 req blk(1)
        by (subst (asm) s2) (auto simp: alloc_def Let_def store_def load_def block zero_Block_def)
      moreover note bound2
      ultimately have "wf_state s' [block]"
        using blk(1) grown pb block empty(3) by (simp add: wf_state_def)
      then show ?thesis ..
    next
      case (Cons x xs')
      then have ne: "xs \<noteq> []" by simp
      then have hs: "heapStart s \<noteq> nullptr" using ch Cons by auto
      have tp: "top_ptr s = last xs" using top ne by simp
      have "last xs \<in> set xs" using ne by simp
      then have tdom: "last xs \<noteq> nullptr" "last xs \<in> dom (memory s)"
        using ch chain_set_nonzero by blast+
      then obtain bt where bt: "memory s (last xs) = Some bt" by auto
      have tne: "last xs \<noteq> block" using tdom(2) fresh by auto
      have "s' = s\<lparr>program_break := program_break s2,
          memory := (memory s)(block \<mapsto> ?nb, last xs \<mapsto> bt\<lparr>next_blk := block\<rparr>),
          top_ptr := block\<rparr>"
        using al fb True s1 req blk(1) hs tp tdom(1) bt tne
        by (subst (asm) s2) (auto simp: alloc_def Let_def store_def load_def block zero_Block_def)
      moreover have "chain ((memory s)(block \<mapsto> ?nb, last xs \<mapsto> bt\<lparr>next_blk := block\<rparr>))
          (heapStart s) (xs @ [block])"
        using ch ne _ blk(1) bt
      proof (rule chain_snoc)
        show "block \<notin> set xs" using fresh ch chain_set_nonzero by blast
      qed simp
      moreover note bound2
      ultimately have "wf_state s' (xs @ [block])"
        using grown pb block cur tdom(2) by (auto simp: wf_state_def)
      then show ?thesis ..
    qed
  qed
qed

lemma initial_state_wf: "base \<noteq> nullptr \<Longrightarrow> wf_state (initial_state base limit) []"
  by (simp add: wf_state_def initial_state_def)

lemma init_preserves_wf:
  assumes "wf_state s xs" and "heapStart s = nullptr"
  shows "wf_state (init mode s) xs"
  using assms by (simp add: init_def resetHeap_def wf_state_def)

text \<open>
  After two allocations and a second \<^verbatim>\<open>init\<close>, the first block of the new heap lies on
  the old first block and still points to the old second one: \<^verbatim>\<open>alloc\<close> does not write
  the next link of a new block.
\<close>

lemma reinit_keeps_old_link:
  "\<exists>s s'. run [Alloc 8, Alloc 8] (init FirstFit (initial_state 4096 8192)) = Some (Inr s)
     \<and> alloc 8 (init FirstFit s) = Some (Inr (4120, s'))
     \<and> memory s' 4096 = Some \<lparr>size_blk = 8, used_blk = True, next_blk = 4128\<rparr>"
  by (simp add: run_defs brk_call_def firstFit_loop.simps)

lemma reachable_wf: "reachable s \<Longrightarrow> \<exists>xs. wf_state s xs"
proof (induction rule: reachable.induct)
  case (start base limit)
  then show ?case using initial_state_wf by blast
next
  case (after_init s mode)
  then show ?case using init_preserves_wf by blast
next
  case (after_alloc s sz p s')
  then show ?case using alloc_preserves_wf by blast
next
  case (after_free s data s')
  then show ?case using free_preserves_wf by blast
qed

lemma nextFit_returns_when_reachable:
  assumes "reachable s"
  shows "\<exists>xs. chain (memory s) (heapStart s) xs \<and> nextFit a s = Some (Inr (nextFit_spec xs a s))"
proof -
  from assms obtain xs where "wf_state s xs" using reachable_wf by blast
  then have "chain (memory s) (heapStart s) xs"
    and "searchStart s = nullptr \<or> searchStart s \<in> set xs"
    by (simp_all add: wf_state_def)
  then show ?thesis using nextFit_refines by blast
qed



end
